theory Spec2Isabelle
  imports Main "HOL-Library.Word" "HOL-Library.Multiset"
begin

unbundle bit_operations_syntax

section \<open>The change tracker of \<open>image_scrambler/main.go\<close>\<close>

text \<open>
  A buffer is a Go \<open>[]byte\<close>: a list of 8-bit words. An offset is a Go \<open>int64\<close>: a
  64-bit word read in two's complement by \<open>sint\<close>. The tracker struct has one field, the
  Go map \<open>offsets map[int64]byte\<close>.

  Both methods take the tracker by pointer and the buffer as a slice, and both mutate them
  in place while returning only an \<open>error\<close>. The model passes the state explicitly: each
  method returns the error (\<open>None\<close> for Go's \<open>nil\<close>) together with the tracker and the
  buffer as they are when the call returns, also when it returns an error.
\<close>

type_synonym byte = "8 word"
type_synonym int64 = "64 word"

record offsetMemoryAddressing =
  offsets :: "int64 \<rightharpoonup> byte"

text \<open>
  The two messages built with \<open>fmt.Errorf\<close>: \<open>"mem block is empty"\<close> and
  \<open>"offset %d is out of bounds"\<close> (which carries the offset).
\<close>

datatype error = EmptyBuffer | OutOfBounds int64

text \<open>
  \<open>len(mem)\<close> is a non-negative Go \<open>int\<close>, so \<open>int64(len(mem))\<close> is the length itself and
  the comparison \<open>offset >= int64(len(mem))\<close> is a comparison of integers.
\<close>

definition modifyBytes ::
  "offsetMemoryAddressing \<Rightarrow> byte list \<Rightarrow> int64 \<Rightarrow> byte
     \<Rightarrow> error option \<times> offsetMemoryAddressing \<times> byte list" where
  "modifyBytes t mem offset newValue =
     (if sint offset < 0 \<or> int (length mem) \<le> sint offset
      then (Some (OutOfBounds offset), t, mem)
      else
        let t' = (if offsets t offset = None
                  then t\<lparr>offsets := (offsets t)(offset \<mapsto> mem ! nat (sint offset))\<rparr>
                  else t)
        in (None, t', mem[nat (sint offset) := newValue]))"

text \<open>
  The loop \<open>for offset, originalByte := range o.offsets\<close> of \<open>removeMemoryAddress\<close>.
  Go leaves the iteration order of a map unspecified, so the order is an input of the model:
  the list of the (offset, originalByte) pairs in the order in which the loop meets them.
  The loop returns at the first pair that is out of bounds, with the buffer as the earlier
  iterations left it.
\<close>

fun restore_loop :: "(int64 \<times> byte) list \<Rightarrow> byte list \<Rightarrow> error option \<times> byte list" where
  "restore_loop [] mem = (None, mem)"
| "restore_loop ((offset, originalByte) # rest) mem =
     (if sint offset < 0 \<or> int (length mem) \<le> sint offset
      then (Some (OutOfBounds offset), mem)
      else restore_loop rest (mem[nat (sint offset) := originalByte]))"

definition removeMemoryAddress ::
  "(int64 \<times> byte) list \<Rightarrow> offsetMemoryAddressing \<Rightarrow> byte list
     \<Rightarrow> error option \<times> offsetMemoryAddressing \<times> byte list" where
  "removeMemoryAddress order t mem =
     (if length mem = 0 then (Some EmptyBuffer, t, mem)
      else case restore_loop order mem of
             (Some e, mem') \<Rightarrow> (Some e, t, mem')
           | (None, mem') \<Rightarrow> (None, t\<lparr>offsets := Map.empty\<rparr>, mem'))"

text \<open>
  What \<open>range\<close> may produce for a map: every entry of the map exactly once, in any order.
\<close>

definition range_of :: "(int64 \<rightharpoonup> byte) \<Rightarrow> (int64 \<times> byte) list \<Rightarrow> bool" where
  "range_of m order \<longleftrightarrow> distinct (map fst order) \<and> map_of order = m"

text \<open>
  A sequence of calls of \<open>modifyBytes\<close> on one tracker and one buffer that stops at the
  first error, as the loop of \<open>scrambleImage\<close> does
  (\<open>err := tracker.modifyBytes(...); if err != nil { return nil, nil, err }\<close>).
\<close>

fun modifyBytes_seq ::
  "offsetMemoryAddressing \<Rightarrow> byte list \<Rightarrow> (int64 \<times> byte) list
     \<Rightarrow> error option \<times> offsetMemoryAddressing \<times> byte list" where
  "modifyBytes_seq t mem [] = (None, t, mem)"
| "modifyBytes_seq t mem ((offset, newValue) # rest) =
     (case modifyBytes t mem offset newValue of
        (Some e, t', mem') \<Rightarrow> (Some e, t', mem')
      | (None, t', mem') \<Rightarrow> modifyBytes_seq t' mem' rest)"

text \<open>
  Calls of \<open>modifyBytes\<close> on one tracker, each against a buffer of its own: how the record
  of a tracker is built when the tracker outlives a buffer. The function returns the tracker
  after the last call; a call that returns an error leaves the tracker as it was.
\<close>

fun modifyBytes_calls ::
  "offsetMemoryAddressing \<Rightarrow> (byte list \<times> int64 \<times> byte) list \<Rightarrow> offsetMemoryAddressing" where
  "modifyBytes_calls t [] = t"
| "modifyBytes_calls t ((mem, offset, newValue) # rest) =
     modifyBytes_calls (fst (snd (modifyBytes t mem offset newValue))) rest"

text \<open>
  The invariant that links a tracker and the buffer it writes through to the buffer \<open>mem0\<close>
  as it was when the record was empty: the lengths agree, every recorded offset is in
  bounds and holds the byte of \<open>mem0\<close> at that offset, and every position without a record
  still holds the byte of \<open>mem0\<close>.
\<close>

definition tracks :: "offsetMemoryAddressing \<Rightarrow> byte list \<Rightarrow> byte list \<Rightarrow> bool" where
  "tracks t mem mem0 \<longleftrightarrow>
     length mem = length mem0 \<and>
     (\<forall>k v. offsets t k = Some v \<longrightarrow>
        0 \<le> sint k \<and> sint k < int (length mem) \<and> v = mem0 ! nat (sint k)) \<and>
     (\<forall>i. (\<forall>k. offsets t k \<noteq> None \<longrightarrow> nat (sint k) \<noteq> i) \<longrightarrow> mem ! i = mem0 ! i)"

section \<open>The permutation engine of \<open>image_scrambler/main.go\<close>\<close>

text \<open>
  The permutation is built in \<open>main\<close> (lines 83 to 92, and again over bytes in
  \<open>scrambleImage\<close>): \<open>shuffledIndices\<close> is filled with \<open>0, 1, ..., totalPixels - 1\<close> and
  then shuffled by
  \<^verbatim>\<open>for i := totalPixels - 1; i > 0; i-- { j := rand.Intn(i + 1); swap i, j }\<close>.

  The random source is an input of the model: \<open>Intn n\<close> is the value that \<open>rand.Intn(n)\<close>
  returns. The loop calls it once for each \<open>i\<close>, with a different argument each time, so a
  function of the argument describes every run. Go's \<open>rand.Intn(n)\<close> returns a value in
  \<open>[0, n)\<close>; theorems about the shuffle assume that of \<open>Intn\<close>.

  Indices are Go \<open>int\<close>s that the program only creates in \<open>[0, totalPixels)\<close>; they are
  natural numbers here. The loop counter starts at \<open>totalPixels - 1\<close>, which is \<open>-1\<close> in Go
  and \<open>0\<close> here when \<open>totalPixels = 0\<close>: in both cases the test \<open>i > 0\<close> fails at once.
  The tuple assignment reads both elements before it writes either.
\<close>

fun shuffle_loop :: "(nat \<Rightarrow> nat) \<Rightarrow> nat \<Rightarrow> nat list \<Rightarrow> nat list" where
  "shuffle_loop Intn 0 shuffledIndices = shuffledIndices"
| "shuffle_loop Intn (Suc i') shuffledIndices =
     (let i = Suc i'; j = Intn (i + 1)
      in shuffle_loop Intn i' (shuffledIndices[i := shuffledIndices ! j, j := shuffledIndices ! i]))"

definition shuffle :: "(nat \<Rightarrow> nat) \<Rightarrow> nat \<Rightarrow> nat list" where
  "shuffle Intn totalPixels = shuffle_loop Intn (totalPixels - 1) [0..<totalPixels]"

text \<open>
  Modelled from the spec: Go's \<open>image.RGBA\<close> and \<open>color.RGBA\<close>, which are the standard
  library's and not part of the repository. The spec describes the image as a flat buffer of
  4 bytes per pixel (red, green, blue, alpha), row-major, of known width and height, so the
  rectangle starts at the origin and the stride is \<open>4 * width\<close>. \<open>At(x, y)\<close> returns the
  four bytes of the pixel, or the zero colour outside the rectangle; \<open>RGBA()\<close> widens a
  channel \<open>c\<close> to 16 bits as \<open>c | c << 8\<close> in a \<open>uint32\<close>.
\<close>

definition rgbaAt ::
  "nat \<Rightarrow> nat \<Rightarrow> byte list \<Rightarrow> nat \<Rightarrow> nat \<Rightarrow> byte \<times> byte \<times> byte \<times> byte" where
  "rgbaAt width height pix x y =
     (if x < width \<and> y < height
      then let i = y * (4 * width) + x * 4 in (pix ! i, pix ! (i + 1), pix ! (i + 2), pix ! (i + 3))
      else (0, 0, 0, 0))"

definition RGBA :: "byte \<Rightarrow> 32 word" where
  "RGBA c = (let r = ucast c in r OR push_bit 8 r)"

definition bytesPerPixel :: nat where
  "bytesPerPixel = 4"

text \<open>
  One iteration of the loop \<open>for originalIdx, shuffledIdx := range shuffledIndices\<close>
  (lines 119 to 138): the four calls of \<open>modifyBytes\<close> it makes on the destination, as
  (offset, new value) pairs in the order of the calls. \<open>byte(r>>8)\<close> is
  \<open>ucast (drop_bit 8 r)\<close>, and \<open>int64(scrambledOffset)\<close> is \<open>word_of_nat\<close>. The iteration
  reads the source image only, so the calls of the whole loop are the concatenation of
  the calls of its iterations.

  The loop body runs only for an index below \<open>len(shuffledIndices) = width * height\<close>, so
  \<open>width\<close> is positive whenever Go evaluates \<open>% width\<close> and \<open>/ width\<close>; the theorems about
  the loop assume that length.
\<close>

definition pixel_writes :: "nat \<Rightarrow> nat \<Rightarrow> byte list \<Rightarrow> nat \<times> nat \<Rightarrow> (int64 \<times> byte) list" where
  "pixel_writes width height srcPix = (\<lambda>(originalIdx, shuffledIdx).
     let origX = originalIdx mod width;
         origY = originalIdx div width;
         shuffledX = shuffledIdx mod width;
         shuffledY = shuffledIdx div width;
         (cr, cg, cb, ca) = rgbaAt width height srcPix origX origY;
         (r, g, b, a) = (RGBA cr, RGBA cg, RGBA cb, RGBA ca);
         scrambledOffset = (shuffledY * width + shuffledX) * bytesPerPixel
     in [(word_of_nat scrambledOffset, ucast (drop_bit 8 r)),
         (word_of_nat (scrambledOffset + 1), ucast (drop_bit 8 g)),
         (word_of_nat (scrambledOffset + 2), ucast (drop_bit 8 b)),
         (word_of_nat (scrambledOffset + 3), ucast (drop_bit 8 a))])"

definition shuffle_writes :: "nat \<Rightarrow> nat \<Rightarrow> byte list \<Rightarrow> nat list \<Rightarrow> (int64 \<times> byte) list" where
  "shuffle_writes width height srcPix shuffledIndices =
     concat (map (pixel_writes width height srcPix) (enumerate 0 shuffledIndices))"

text \<open>
  \<open>main\<close> calls \<open>tracker.modifyBytes(...)\<close> as a statement and drops the error it returns:
  a call that fails changes nothing and the next call is made all the same.
\<close>

fun modifyBytes_unchecked ::
  "offsetMemoryAddressing \<Rightarrow> byte list \<Rightarrow> (int64 \<times> byte) list
     \<Rightarrow> offsetMemoryAddressing \<times> byte list" where
  "modifyBytes_unchecked t mem [] = (t, mem)"
| "modifyBytes_unchecked t mem ((offset, newValue) # rest) =
     (case modifyBytes t mem offset newValue of
        (_, t', mem') \<Rightarrow> modifyBytes_unchecked t' mem' rest)"

text \<open>
  Applying a permutation to an image: the destination is a fresh image
  (\<open>image.NewRGBA(bounds)\<close>: \<open>width * height * 4\<close> zero bytes) written through a fresh
  tracker. \<open>main\<close> does this twice with the same loop: with \<open>shuffledIndices\<close> from the
  original image into \<open>scrambledImg\<close> (lines 110 to 138), and with \<open>reverseShuffle\<close> from
  \<open>scrambledImg\<close> into \<open>restoredImg\<close> (lines 190 to 214). In both loops the pixel at the
  position of an entry is read and written to the pixel that the entry names.

  This is the loop alone. \<open>main\<close> reaches it only after the loops that print examples,
  which can panic: \<open>main_scramble\<close> and \<open>main_restore\<close> below are the loops as \<open>main\<close>
  runs them.
\<close>

definition applyShuffle ::
  "nat \<Rightarrow> nat \<Rightarrow> byte list \<Rightarrow> nat list \<Rightarrow> offsetMemoryAddressing \<times> byte list" where
  "applyShuffle width height srcPix shuffledIndices =
     modifyBytes_unchecked \<lparr>offsets = Map.empty\<rparr> (replicate (width * height * 4) 0)
       (shuffle_writes width height srcPix shuffledIndices)"

text \<open>
  The inverse permutation (lines 184 to 187): \<open>reverseShuffle[shuffledIdx] = originalIdx\<close>
  for every entry of \<open>shuffledIndices\<close>, in a slice of the same length. An index outside
  the slice makes Go panic: \<open>None\<close>.
\<close>

fun reverse_loop :: "(nat \<times> nat) list \<Rightarrow> nat list \<Rightarrow> nat list option" where
  "reverse_loop [] reverseShuffle = Some reverseShuffle"
| "reverse_loop ((originalIdx, shuffledIdx) # rest) reverseShuffle =
     (if shuffledIdx < length reverseShuffle
      then reverse_loop rest (reverseShuffle[shuffledIdx := originalIdx])
      else None)"

definition reverseShuffle :: "nat list \<Rightarrow> nat list option" where
  "reverseShuffle shuffledIndices =
     reverse_loop (enumerate 0 shuffledIndices) (replicate (length shuffledIndices) 0)"

text \<open>
  The two loops of \<open>main\<close> that print examples: \<open>for i := 0; i < 5; i++\<close> (lines 98 to
  107, before the shuffle is applied) and \<open>for i := 0; i < 3; i++\<close> (lines 156 to 169,
  before the inverse is built). Neither tests \<open>i\<close> against \<open>totalPixels\<close>. Each iteration
  evaluates \<open>i%width, i/width\<close>, which panics when \<open>width\<close> is 0, and then
  \<open>shuffledIndices[i]\<close>, which panics when \<open>i\<close> is not below the length of the slice; the
  rest of the body (\<open>At\<close>, which checks the rectangle itself, and \<open>Printf\<close>) changes
  nothing. The model keeps the panics: \<open>example_loop width shuffledIndices is\<close> runs the
  iterations for the values \<open>is\<close> of \<open>i\<close> and returns the first panic, if any.
\<close>

datatype panic = DivideByZero | IndexOutOfRange

fun example_loop :: "nat \<Rightarrow> nat list \<Rightarrow> nat list \<Rightarrow> panic option" where
  "example_loop width shuffledIndices [] = None"
| "example_loop width shuffledIndices (i # rest) =
     (if width = 0 then Some DivideByZero
      else if length shuffledIndices \<le> i then Some IndexOutOfRange
      else example_loop width shuffledIndices rest)"

text \<open>
  \<open>main\<close> from the shuffled indices to the scrambled image (lines 96 to 138): the first
  example loop, then the shuffle loop. The result is the panic (\<open>Inl\<close>) or the bytes of
  \<open>scrambledImg\<close>.
\<close>

definition main_scramble :: "nat \<Rightarrow> nat \<Rightarrow> byte list \<Rightarrow> nat list \<Rightarrow> panic + byte list" where
  "main_scramble width height srcPix shuffledIndices =
     (case example_loop width shuffledIndices [0..<5] of
        Some p \<Rightarrow> Inl p
      | None \<Rightarrow> Inr (snd (applyShuffle width height srcPix shuffledIndices)))"

text \<open>
  \<open>main\<close> from the shuffled indices to the restored image (lines 96 to 214): the steps of
  \<open>main_scramble\<close>, the second example loop, the inverse permutation and the reverse loop.
  Writing the image files in between is input and output outside the model, taken to
  succeed. The result is the panic or the bytes of \<open>scrambledImg\<close> and \<open>restoredImg\<close>.
\<close>

definition main_restore ::
  "nat \<Rightarrow> nat \<Rightarrow> byte list \<Rightarrow> nat list \<Rightarrow> panic + byte list \<times> byte list" where
  "main_restore width height srcPix shuffledIndices =
     (case main_scramble width height srcPix shuffledIndices of
        Inl p \<Rightarrow> Inl p
      | Inr scrambledPix \<Rightarrow>
          (case example_loop width shuffledIndices [0..<3] of
             Some p \<Rightarrow> Inl p
           | None \<Rightarrow>
               (case reverseShuffle shuffledIndices of
                  None \<Rightarrow> Inl IndexOutOfRange
                | Some reverseIndices \<Rightarrow>
                    Inr (scrambledPix,
                         snd (applyShuffle width height scrambledPix reverseIndices)))))"

text \<open>The four byte positions of pixel \<open>p\<close> in a pixel buffer.\<close>

definition pixel_offsets :: "nat \<Rightarrow> nat list" where
  "pixel_offsets p = [4 * p, 4 * p + 1, 4 * p + 2, 4 * p + 3]"

section \<open>Facts about the restore loop\<close>

lemma sint_nat_inj:
  "0 \<le> sint (k :: int64) \<Longrightarrow> 0 \<le> sint (k' :: int64) \<Longrightarrow> nat (sint k) = nat (sint k') \<Longrightarrow> k = k'"
proof -
  assume "0 \<le> sint k" "0 \<le> sint k'" "nat (sint k) = nat (sint k')"
  then have "sint k = sint k'" by linarith
  then show "k = k'" by (rule signed_word_eqI)
qed

lemma restore_loop_length: "length (snd (restore_loop es mem)) = length mem"
  by (induction es mem rule: restore_loop.induct) auto

lemma restore_loop_untouched:
  "i \<notin> (\<lambda>e. nat (sint (fst e))) ` set es \<Longrightarrow> snd (restore_loop es mem) ! i = mem ! i"
  by (induction es mem rule: restore_loop.induct) auto

lemma restore_loop_succeeds:
  "\<forall>e\<in>set es. 0 \<le> sint (fst e) \<and> sint (fst e) < int (length mem) \<Longrightarrow> fst (restore_loop es mem) = None"
  by (induction es mem rule: restore_loop.induct) auto

lemma restore_loop_hit:
  "distinct (map fst es) \<Longrightarrow> \<forall>e\<in>set es. 0 \<le> sint (fst e) \<and> sint (fst e) < int (length mem) \<Longrightarrow>
   (k, v) \<in> set es \<Longrightarrow> snd (restore_loop es mem) ! nat (sint k) = v"
proof (induction es mem rule: restore_loop.induct)
  case (1 mem)
  then show ?case by simp
next
  case (2 offset originalByte rest mem)
  show ?case
  proof (cases "(k, v) = (offset, originalByte)")
    case True
    have "nat (sint k) \<notin> (\<lambda>e. nat (sint (fst e))) ` set rest"
    proof
      assume "nat (sint k) \<in> (\<lambda>e. nat (sint (fst e))) ` set rest"
      then obtain e where e: "e \<in> set rest" "nat (sint k) = nat (sint (fst e))" by auto
      with 2 True have "k = fst e" by (intro sint_nat_inj) auto
      with e 2 True show False by force
    qed
    with 2 True show ?thesis by (auto simp: restore_loop_untouched)
  next
    case False
    with 2 show ?thesis by auto
  qed
qed

section \<open>Error paths\<close>

text \<open>
  C6: \<open>modifyBytes\<close> with an offset below 0 or at or beyond the length of the buffer
  returns the out-of-bounds error and leaves both the buffer and the tracker as they were.
\<close>

theorem modifyBytes_out_of_bounds:
  "sint offset < 0 \<or> int (length mem) \<le> sint offset \<Longrightarrow>
   modifyBytes t mem offset newValue = (Some (OutOfBounds offset), t, mem)"
  by (simp add: modifyBytes_def)

theorem modifyBytes_out_of_bounds_witness:
  "(sint (5 :: int64) < 0 \<or> int (length [0x10, 0x20, 0x30, 0x40, 0x50 :: byte]) \<le> sint (5 :: int64))
   \<and> modifyBytes \<lparr>offsets = [1 \<mapsto> 0x20]\<rparr> [0x10, 0x99, 0x30, 0x40, 0x50] 5 0x77
       = (Some (OutOfBounds 5), \<lparr>offsets = [1 \<mapsto> 0x20]\<rparr>, [0x10, 0x99, 0x30, 0x40, 0x50])"
  using modifyBytes_out_of_bounds
    [of 5 "[0x10, 0x99, 0x30, 0x40, 0x50]" "\<lparr>offsets = [1 \<mapsto> 0x20]\<rparr>" "0x77"]
  by simp

text \<open>
  C8: \<open>removeMemoryAddress\<close> on a buffer of length zero returns the empty-buffer error,
  whatever the record holds and whatever order the map would be walked in, and the tracker
  (and so its record) is returned as it was.
\<close>

theorem removeMemoryAddress_empty_buffer:
  "removeMemoryAddress order t [] = (Some EmptyBuffer, t, [])"
  by (simp add: removeMemoryAddress_def)

text \<open>
  C10: whenever \<open>removeMemoryAddress\<close> returns an error, the tracker it leaves behind is
  the tracker it was called with: no entry is removed and the record is not cleared.
\<close>

theorem removeMemoryAddress_error_keeps_record:
  "removeMemoryAddress order t mem = (Some e, t', mem') \<Longrightarrow> t' = t"
  by (auto simp: removeMemoryAddress_def split: if_splits prod.splits option.splits)

theorem removeMemoryAddress_error_keeps_record_witness:
  "removeMemoryAddress [(1, 0x20), (7, 0x40)] \<lparr>offsets = [1 \<mapsto> 0x20, 7 \<mapsto> 0x40]\<rparr>
       [0x10, 0x99, 0x30, 0x77, 0x50]
     = (Some (OutOfBounds 7), \<lparr>offsets = [1 \<mapsto> 0x20, 7 \<mapsto> 0x40]\<rparr>,
        [0x10, 0x20, 0x30, 0x77, 0x50])"
proof -
  obtain e t' mem' where r:
    "removeMemoryAddress [(1, 0x20), (7, 0x40)] \<lparr>offsets = [1 \<mapsto> 0x20, 7 \<mapsto> 0x40]\<rparr>
       [0x10, 0x99, 0x30, 0x77, 0x50] = (Some e, t', mem')"
    by (simp add: removeMemoryAddress_def)
  from removeMemoryAddress_error_keeps_record [OF r] r show ?thesis
    by (auto simp: removeMemoryAddress_def)
qed

section \<open>Undoing tracked writes\<close>

lemma tracks_empty: "tracks \<lparr>offsets = Map.empty\<rparr> mem mem"
  by (simp add: tracks_def)

lemma tracks_modifyBytes:
  assumes "tracks t mem mem0" and "modifyBytes t mem offset newValue = (None, t', mem')"
  shows "tracks t' mem' mem0"
proof -
  from assms(2) have inb: "0 \<le> sint offset" "sint offset < int (length mem)"
    by (auto simp: modifyBytes_def split: if_splits)
  from assms(2) inb have mem': "mem' = mem[nat (sint offset) := newValue]"
    by (auto simp: modifyBytes_def Let_def split: if_splits)
  show ?thesis
  proof (cases "offsets t offset")
    case None
    with assms(2) inb have t': "offsets t' = (offsets t)(offset \<mapsto> mem ! nat (sint offset))"
      by (auto simp: modifyBytes_def Let_def split: if_splits)
    have "\<forall>k. offsets t k \<noteq> None \<longrightarrow> nat (sint k) \<noteq> nat (sint offset)"
    proof (intro allI impI notI)
      fix k assume k: "offsets t k \<noteq> None" "nat (sint k) = nat (sint offset)"
      with assms(1) have "0 \<le> sint k" by (auto simp: tracks_def)
      with k inb have "k = offset" by (intro sint_nat_inj) auto
      with k None show False by simp
    qed
    with assms(1) have orig: "mem ! nat (sint offset) = mem0 ! nat (sint offset)"
      by (simp add: tracks_def)
    have len: "length mem' = length mem0" using assms(1) mem' by (simp add: tracks_def)
    have rec: "0 \<le> sint k \<and> sint k < int (length mem') \<and> v = mem0 ! nat (sint k)"
      if "offsets t' k = Some v" for k v
      using that t' orig assms(1) inb mem' by (auto simp: tracks_def split: if_splits)
    have rest: "mem' ! i = mem0 ! i"
      if a: "\<forall>k. offsets t' k \<noteq> None \<longrightarrow> nat (sint k) \<noteq> i" for i
    proof -
      from t' have "offsets t' offset \<noteq> None" by simp
      with a have ne: "i \<noteq> nat (sint offset)" by blast
      have "\<forall>k. offsets t k \<noteq> None \<longrightarrow> nat (sint k) \<noteq> i"
      proof (intro allI impI)
        fix k assume "offsets t k \<noteq> None"
        with t' have "offsets t' k \<noteq> None" by simp
        with a show "nat (sint k) \<noteq> i" by blast
      qed
      with assms(1) have "mem ! i = mem0 ! i" by (simp add: tracks_def)
      with ne mem' show ?thesis by simp
    qed
    from len rec rest show ?thesis unfolding tracks_def by blast
  next
    case (Some w)
    with assms(2) inb have t': "t' = t"
      by (auto simp: modifyBytes_def Let_def split: if_splits)
    have len: "length mem' = length mem0" using assms(1) mem' by (simp add: tracks_def)
    have rec: "0 \<le> sint k \<and> sint k < int (length mem') \<and> v = mem0 ! nat (sint k)"
      if "offsets t' k = Some v" for k v
      using that t' assms(1) mem' by (auto simp: tracks_def)
    have rest: "mem' ! i = mem0 ! i"
      if a: "\<forall>k. offsets t' k \<noteq> None \<longrightarrow> nat (sint k) \<noteq> i" for i
    proof -
      from t' Some have "offsets t' offset \<noteq> None" by simp
      with a have ne: "i \<noteq> nat (sint offset)" by blast
      from a t' assms(1) have "mem ! i = mem0 ! i" by (simp add: tracks_def)
      with ne mem' show ?thesis by simp
    qed
    from len rec rest show ?thesis unfolding tracks_def by blast
  qed
qed

lemma tracks_modifyBytes_seq:
  "tracks t mem mem0 \<Longrightarrow> modifyBytes_seq t mem ws = (None, t', mem') \<Longrightarrow> tracks t' mem' mem0"
proof (induction ws arbitrary: t mem)
  case Nil
  then show ?case by simp
next
  case (Cons w ws)
  obtain offset newValue where w: "w = (offset, newValue)" by (cases w)
  obtain e t1 mem1 where m: "modifyBytes t mem offset newValue = (e, t1, mem1)"
    by (cases "modifyBytes t mem offset newValue")
  with Cons.prems(2) w have e: "e = None" by (cases e) auto
  with Cons.prems(2) w m have "modifyBytes_seq t1 mem1 ws = (None, t', mem')" by simp
  moreover from Cons.prems(1) m e have "tracks t1 mem1 mem0" by (auto intro: tracks_modifyBytes)
  ultimately show ?case by (rule Cons.IH [rotated])
qed

lemma range_of_iff: "range_of m order \<Longrightarrow> (k, v) \<in> set order \<longleftrightarrow> m k = Some v"
  by (auto simp: range_of_def)

lemma tracks_restore_loop:
  assumes "tracks t mem mem0" and "range_of (offsets t) order"
  shows "restore_loop order mem = (None, mem0)"
proof -
  have inb: "\<forall>e\<in>set order. 0 \<le> sint (fst e) \<and> sint (fst e) < int (length mem)"
  proof
    fix e assume "e \<in> set order"
    then have "offsets t (fst e) = Some (snd e)"
      using range_of_iff [OF assms(2), of "fst e" "snd e"] by simp
    with assms(1) show "0 \<le> sint (fst e) \<and> sint (fst e) < int (length mem)"
      by (auto simp: tracks_def)
  qed
  have d: "distinct (map fst order)" using assms(2) by (simp add: range_of_def)
  have "snd (restore_loop order mem) = mem0"
  proof (rule nth_equalityI)
    show "length (snd (restore_loop order mem)) = length mem0"
      using assms(1) by (simp add: restore_loop_length tracks_def)
  next
    fix i assume "i < length (snd (restore_loop order mem))"
    show "snd (restore_loop order mem) ! i = mem0 ! i"
    proof (cases "i \<in> (\<lambda>e. nat (sint (fst e))) ` set order")
      case True
      then obtain k v where kv: "(k, v) \<in> set order" "i = nat (sint k)" by auto
      then have "snd (restore_loop order mem) ! i = v"
        using restore_loop_hit [OF d inb] by simp
      moreover from kv have "offsets t k = Some v"
        using range_of_iff [OF assms(2)] by simp
      with assms(1) kv have "v = mem0 ! i" by (auto simp: tracks_def)
      ultimately show ?thesis by simp
    next
      case False
      then have "snd (restore_loop order mem) ! i = mem ! i"
        by (rule restore_loop_untouched)
      moreover have "\<forall>k. offsets t k \<noteq> None \<longrightarrow> nat (sint k) \<noteq> i"
      proof (intro allI impI notI)
        fix k assume "offsets t k \<noteq> None" "nat (sint k) = i"
        then obtain v where "offsets t k = Some v" "nat (sint k) = i" by auto
        then have "(k, v) \<in> set order" "nat (sint k) = i"
          using range_of_iff [OF assms(2)] by simp_all
        with False show False by force
      qed
      with assms(1) have "mem ! i = mem0 ! i" by (simp add: tracks_def)
      ultimately show ?thesis by simp
    qed
  qed
  moreover have "fst (restore_loop order mem) = None"
    using inb by (rule restore_loop_succeeds)
  ultimately show ?thesis by (cases "restore_loop order mem") simp
qed

text \<open>
  C1: for every non-empty buffer and every sequence of calls of \<open>modifyBytes\<close> that all
  succeed, made through a tracker that starts with an empty record, \<open>removeMemoryAddress\<close>
  on that buffer succeeds in whatever order it walks the record, leaves the buffer as it
  was before the first call, and leaves the record empty. On an empty buffer no call can
  succeed, so the only sequence of successful calls is the empty one, and there
  \<open>removeMemoryAddress\<close> returns the empty-buffer error instead of succeeding.
\<close>

theorem restore_after_writes:
  assumes "mem \<noteq> []"
    and "modifyBytes_seq \<lparr>offsets = Map.empty\<rparr> mem ws = (None, t', mem')"
    and "range_of (offsets t') order"
  shows "removeMemoryAddress order t' mem' = (None, \<lparr>offsets = Map.empty\<rparr>, mem)"
proof -
  have tr: "tracks t' mem' mem"
    using tracks_empty assms(2) by (rule tracks_modifyBytes_seq)
  then have "restore_loop order mem' = (None, mem)"
    using assms(3) by (rule tracks_restore_loop)
  moreover from tr assms(1) have "length mem' \<noteq> 0" by (simp add: tracks_def)
  ultimately show ?thesis by (simp add: removeMemoryAddress_def)
qed

theorem restore_empty_buffer_counterexample:
  "modifyBytes_seq \<lparr>offsets = Map.empty\<rparr> [] [] = (None, \<lparr>offsets = Map.empty\<rparr>, [])
   \<and> range_of (offsets \<lparr>offsets = Map.empty\<rparr>) []
   \<and> removeMemoryAddress [] \<lparr>offsets = Map.empty\<rparr> []
       = (Some EmptyBuffer, \<lparr>offsets = Map.empty\<rparr>, [])"
  by (simp add: range_of_def removeMemoryAddress_def)

theorem restore_after_writes_witness:
  "[0x10, 0x20, 0x30, 0x40, 0x50 :: byte] \<noteq> []
   \<and> modifyBytes_seq \<lparr>offsets = Map.empty\<rparr> [0x10, 0x20, 0x30, 0x40, 0x50] [(1, 0x99), (3, 0x77), (1, 0x55)]
       = (None, \<lparr>offsets = [1 \<mapsto> 0x20, 3 \<mapsto> 0x40]\<rparr>, [0x10, 0x55, 0x30, 0x77, 0x50])
   \<and> range_of (offsets \<lparr>offsets = [1 \<mapsto> 0x20, 3 \<mapsto> 0x40]\<rparr>) [(3, 0x40), (1, 0x20)]
   \<and> removeMemoryAddress [(3, 0x40), (1, 0x20)] \<lparr>offsets = [1 \<mapsto> 0x20, 3 \<mapsto> 0x40]\<rparr>
         [0x10, 0x55, 0x30, 0x77, 0x50]
       = (None, \<lparr>offsets = Map.empty\<rparr>, [0x10, 0x20, 0x30, 0x40, 0x50])"
proof -
  have a: "[0x10, 0x20, 0x30, 0x40, 0x50 :: byte] \<noteq> []" by simp
  have b: "modifyBytes_seq \<lparr>offsets = Map.empty\<rparr> [0x10, 0x20, 0x30, 0x40, 0x50] [(1, 0x99), (3, 0x77), (1, 0x55)]
       = (None, \<lparr>offsets = [1 \<mapsto> 0x20, 3 \<mapsto> 0x40]\<rparr>, [0x10, 0x55, 0x30, 0x77, 0x50])"
    by (simp add: modifyBytes_def)
  have c: "range_of (offsets \<lparr>offsets = [1 \<mapsto> 0x20, 3 \<mapsto> 0x40]\<rparr>) [(3, 0x40), (1, 0x20)]"
    by (simp add: range_of_def)
  from restore_after_writes [OF a b c] a b c show ?thesis by simp
qed








lemma restore_loop_order:
  assumes d1: "distinct (map fst es1)" and d2: "distinct (map fst es2)"
    and s: "set es1 = set es2"
    and inb: "\<forall>e\<in>set es1. 0 \<le> sint (fst e) \<and> sint (fst e) < int (length mem)"
  shows "restore_loop es1 mem = restore_loop es2 mem"
proof -
  from inb s have inb2: "\<forall>e\<in>set es2. 0 \<le> sint (fst e) \<and> sint (fst e) < int (length mem)"
    by simp
  have "snd (restore_loop es1 mem) = snd (restore_loop es2 mem)"
  proof (rule nth_equalityI)
    show "length (snd (restore_loop es1 mem)) = length (snd (restore_loop es2 mem))"
      by (simp add: restore_loop_length)
  next
    fix i assume "i < length (snd (restore_loop es1 mem))"
    show "snd (restore_loop es1 mem) ! i = snd (restore_loop es2 mem) ! i"
    proof (cases "i \<in> (\<lambda>e. nat (sint (fst e))) ` set es1")
      case True
      then obtain k v where kv: "(k, v) \<in> set es1" "i = nat (sint k)" by auto
      with s have kv2: "(k, v) \<in> set es2" by simp
      from kv restore_loop_hit [OF d1 inb] have "snd (restore_loop es1 mem) ! i = v" by simp
      moreover from kv kv2 restore_loop_hit [OF d2 inb2]
      have "snd (restore_loop es2 mem) ! i = v" by simp
      ultimately show ?thesis by simp
    next
      case False
      with s have "i \<notin> (\<lambda>e. nat (sint (fst e))) ` set es2" by simp
      with False show ?thesis by (simp add: restore_loop_untouched)
    qed
  qed
  moreover have "fst (restore_loop es1 mem) = fst (restore_loop es2 mem)"
    using inb inb2 by (simp add: restore_loop_succeeds)
  ultimately show ?thesis by (simp add: prod_eq_iff)
qed

text \<open>
  C7: two orders of the same set of recorded (offset, byte) pairs, with distinct offsets
  that are all within the bounds of the buffer, give the same result of
  \<open>removeMemoryAddress\<close>: the same buffer (and the same error value and tracker).
\<close>

theorem removeMemoryAddress_order_irrelevant:
  "distinct (map fst order1) \<Longrightarrow> distinct (map fst order2) \<Longrightarrow> set order1 = set order2 \<Longrightarrow>
   \<forall>e\<in>set order1. 0 \<le> sint (fst e) \<and> sint (fst e) < int (length mem) \<Longrightarrow>
   removeMemoryAddress order1 t mem = removeMemoryAddress order2 t mem"
  by (simp add: removeMemoryAddress_def restore_loop_order [of order1 order2 mem])

theorem removeMemoryAddress_order_irrelevant_witness:
  "distinct (map fst [(1 :: int64, 0x20 :: byte), (3, 0x40), (0, 0x10)])
   \<and> distinct (map fst [(3 :: int64, 0x40 :: byte), (0, 0x10), (1, 0x20)])
   \<and> set [(1 :: int64, 0x20 :: byte), (3, 0x40), (0, 0x10)] = set [(3, 0x40), (0, 0x10), (1, 0x20)]
   \<and> list_all (\<lambda>e. 0 \<le> sint (fst e) \<and> sint (fst e) < int (length [0x11, 0x99, 0x30, 0x77, 0x50 :: byte]))
         [(1 :: int64, 0x20 :: byte), (3, 0x40), (0, 0x10)]
   \<and> removeMemoryAddress [(1, 0x20), (3, 0x40), (0, 0x10)]
        \<lparr>offsets = [0 \<mapsto> 0x10, 1 \<mapsto> 0x20, 3 \<mapsto> 0x40]\<rparr> [0x11, 0x99, 0x30, 0x77, 0x50]
     = removeMemoryAddress [(3, 0x40), (0, 0x10), (1, 0x20)]
        \<lparr>offsets = [0 \<mapsto> 0x10, 1 \<mapsto> 0x20, 3 \<mapsto> 0x40]\<rparr> [0x11, 0x99, 0x30, 0x77, 0x50]
   \<and> removeMemoryAddress [(3, 0x40), (0, 0x10), (1, 0x20)]
        \<lparr>offsets = [0 \<mapsto> 0x10, 1 \<mapsto> 0x20, 3 \<mapsto> 0x40]\<rparr> [0x11, 0x99, 0x30, 0x77, 0x50]
     = (None, \<lparr>offsets = Map.empty\<rparr>, [0x10, 0x20, 0x30, 0x40, 0x50])"
proof -
  have a: "distinct (map fst [(1 :: int64, 0x20 :: byte), (3, 0x40), (0, 0x10)])" by simp
  have b: "distinct (map fst [(3 :: int64, 0x40 :: byte), (0, 0x10), (1, 0x20)])" by simp
  have c: "set [(1 :: int64, 0x20 :: byte), (3, 0x40), (0, 0x10)] = set [(3, 0x40), (0, 0x10), (1, 0x20)]"
    by auto
  have d: "\<forall>e\<in>set [(1 :: int64, 0x20 :: byte), (3, 0x40), (0, 0x10)].
         0 \<le> sint (fst e) \<and> sint (fst e) < int (length [0x11, 0x99, 0x30, 0x77, 0x50 :: byte])"
    by simp
  have e: "removeMemoryAddress [(3, 0x40), (0, 0x10), (1, 0x20)]
        \<lparr>offsets = [0 \<mapsto> 0x10, 1 \<mapsto> 0x20, 3 \<mapsto> 0x40]\<rparr> [0x11, 0x99, 0x30, 0x77, 0x50]
     = (None, \<lparr>offsets = Map.empty\<rparr>, [0x10, 0x20, 0x30, 0x40, 0x50])"
    by (simp add: removeMemoryAddress_def)
  from removeMemoryAddress_order_irrelevant [OF a b c d, of "\<lparr>offsets = [0 \<mapsto> 0x10, 1 \<mapsto> 0x20, 3 \<mapsto> 0x40]\<rparr>"] a b c e
  show ?thesis by simp
qed

lemma modifyBytes_new_key:
  "modifyBytes t mem offset newValue = (e, t', mem') \<Longrightarrow> offsets t k = None \<Longrightarrow>
   offsets t' k \<noteq> None \<Longrightarrow> k = offset \<and> 0 \<le> sint k \<and> sint k < int (length mem)"
  by (auto simp: modifyBytes_def Let_def split: if_splits)

lemma modifyBytes_calls_bounded:
  "\<forall>c\<in>set calls. length (fst c) \<le> L \<Longrightarrow>
   \<forall>k. offsets t k \<noteq> None \<longrightarrow> 0 \<le> sint k \<and> sint k < int L \<Longrightarrow>
   offsets (modifyBytes_calls t calls) k \<noteq> None \<Longrightarrow> 0 \<le> sint k \<and> sint k < int L"
proof (induction calls arbitrary: t)
  case Nil
  then show ?case by simp
next
  case (Cons c calls)
  obtain mem offset newValue where c: "c = (mem, offset, newValue)" by (cases c)
  obtain e t1 mem1 where m: "modifyBytes t mem offset newValue = (e, t1, mem1)"
    by (cases "modifyBytes t mem offset newValue")
  from Cons.prems(1) c have len: "length mem \<le> L" by simp
  have b1: "\<forall>k. offsets t1 k \<noteq> None \<longrightarrow> 0 \<le> sint k \<and> sint k < int L"
  proof (intro allI impI)
    fix k' assume k': "offsets t1 k' \<noteq> None"
    show "0 \<le> sint k' \<and> sint k' < int L"
    proof (cases "offsets t k'")
      case None
      from modifyBytes_new_key [OF m None k'] len show ?thesis by auto
    next
      case (Some v)
      with Cons.prems(2) show ?thesis by simp
    qed
  qed
  from Cons.prems(1) have b2: "\<forall>c\<in>set calls. length (fst c) \<le> L" by simp
  from Cons.prems(3) c m have b3: "offsets (modifyBytes_calls t1 calls) k \<noteq> None" by simp
  from b2 b1 b3 show ?case by (rule Cons.IH)
qed

text \<open>
  C9: a key that a call of \<open>modifyBytes\<close> adds to the record satisfies
  \<open>0 \<le> offset < len(mem)\<close> for the buffer of that call. Consequently, when the record of a
  tracker was built from the empty record by calls of \<open>modifyBytes\<close> against buffers of
  length at most \<open>L\<close>, \<open>removeMemoryAddress\<close> on a non-empty buffer of length at least
  \<open>L\<close> returns no error, in whatever order it walks the record.
\<close>

theorem recorded_offsets_in_bounds:
  "(modifyBytes t0 mem0 offset newValue = (e, t1, mem1) \<longrightarrow> offsets t0 k = None \<longrightarrow>
      offsets t1 k \<noteq> None \<longrightarrow> 0 \<le> sint k \<and> sint k < int (length mem0))
   \<and> ((\<forall>c\<in>set calls. length (fst c) \<le> L) \<longrightarrow> mem \<noteq> [] \<longrightarrow> L \<le> length mem \<longrightarrow>
      range_of (offsets (modifyBytes_calls \<lparr>offsets = Map.empty\<rparr> calls)) order \<longrightarrow>
      fst (removeMemoryAddress order (modifyBytes_calls \<lparr>offsets = Map.empty\<rparr> calls) mem) = None)"
proof (intro conjI impI)
  assume "modifyBytes t0 mem0 offset newValue = (e, t1, mem1)" "offsets t0 k = None"
    "offsets t1 k \<noteq> None"
  then show "0 \<le> sint k" "sint k < int (length mem0)"
    using modifyBytes_new_key by blast+
next
  let ?t = "modifyBytes_calls \<lparr>offsets = Map.empty\<rparr> calls"
  assume calls: "\<forall>c\<in>set calls. length (fst c) \<le> L" and ne: "mem \<noteq> []"
    and L: "L \<le> length mem" and r: "range_of (offsets ?t) order"
  have "\<forall>e\<in>set order. 0 \<le> sint (fst e) \<and> sint (fst e) < int (length mem)"
  proof
    fix e assume "e \<in> set order"
    with r have "offsets ?t (fst e) = Some (snd e)"
      using range_of_iff [OF r, of "fst e" "snd e"] by simp
    then have "offsets ?t (fst e) \<noteq> None" by simp
    with calls have "0 \<le> sint (fst e) \<and> sint (fst e) < int L"
      by (intro modifyBytes_calls_bounded [where t = "\<lparr>offsets = Map.empty\<rparr>"]) simp_all
    with L show "0 \<le> sint (fst e) \<and> sint (fst e) < int (length mem)" by simp
  qed
  then have "fst (restore_loop order mem) = None" by (rule restore_loop_succeeds)
  with ne show "fst (removeMemoryAddress order ?t mem) = None"
    by (auto simp: removeMemoryAddress_def split: prod.splits option.splits)
qed

theorem recorded_offsets_in_bounds_witness:
  "modifyBytes \<lparr>offsets = Map.empty\<rparr> [0x10, 0x20, 0x30] 2 0x99
     = (None, \<lparr>offsets = [2 \<mapsto> 0x30]\<rparr>, [0x10, 0x20, 0x99])
   \<and> offsets \<lparr>offsets = Map.empty\<rparr> (2 :: int64) = None
   \<and> offsets \<lparr>offsets = [2 \<mapsto> 0x30]\<rparr> 2 \<noteq> None
   \<and> 0 \<le> sint (2 :: int64) \<and> sint (2 :: int64) < int (length [0x10, 0x20, 0x30 :: byte])
   \<and> list_all (\<lambda>c. length (fst c) \<le> 3)
         [([0x10, 0x20, 0x30 :: byte], 2 :: int64, 0x99 :: byte), ([0x01, 0x02], 1, 0x77), ([0x01, 0x02], 2, 0x55)]
   \<and> [0x0a, 0x0b, 0x0c, 0x0d :: byte] \<noteq> [] \<and> 3 \<le> length [0x0a, 0x0b, 0x0c, 0x0d :: byte]
   \<and> modifyBytes_calls \<lparr>offsets = Map.empty\<rparr>
        [([0x10, 0x20, 0x30], 2, 0x99), ([0x01, 0x02], 1, 0x77), ([0x01, 0x02], 2, 0x55)]
       = \<lparr>offsets = [2 \<mapsto> 0x30, 1 \<mapsto> 0x02]\<rparr>
   \<and> range_of (offsets \<lparr>offsets = [2 \<mapsto> 0x30, 1 \<mapsto> 0x02]\<rparr>) [(1, 0x02), (2, 0x30)]
   \<and> fst (removeMemoryAddress [(1, 0x02), (2, 0x30)] \<lparr>offsets = [2 \<mapsto> 0x30, 1 \<mapsto> 0x02]\<rparr>
        [0x0a, 0x0b, 0x0c, 0x0d]) = None"
proof -
  have a: "modifyBytes \<lparr>offsets = Map.empty\<rparr> [0x10, 0x20, 0x30] 2 0x99
     = (None, \<lparr>offsets = [2 \<mapsto> 0x30]\<rparr>, [0x10, 0x20, 0x99])"
    by (simp add: modifyBytes_def)
  have b: "offsets \<lparr>offsets = Map.empty\<rparr> (2 :: int64) = None"
    "offsets \<lparr>offsets = [2 \<mapsto> 0x30]\<rparr> (2 :: int64) \<noteq> None" by simp_all
  have c: "\<forall>c\<in>set [([0x10, 0x20, 0x30 :: byte], 2 :: int64, 0x99 :: byte), ([0x01, 0x02], 1, 0x77), ([0x01, 0x02], 2, 0x55)].
         length (fst c) \<le> 3" by simp
  have d: "[0x0a, 0x0b, 0x0c, 0x0d :: byte] \<noteq> []" "3 \<le> length [0x0a, 0x0b, 0x0c, 0x0d :: byte]"
    by simp_all
  have e: "modifyBytes_calls \<lparr>offsets = Map.empty\<rparr>
        [([0x10, 0x20, 0x30], 2, 0x99), ([0x01, 0x02], 1, 0x77), ([0x01, 0x02], 2, 0x55)]
       = \<lparr>offsets = [2 \<mapsto> 0x30, 1 \<mapsto> 0x02]\<rparr>"
    by (simp add: modifyBytes_def)
  have f: "range_of (offsets \<lparr>offsets = [2 \<mapsto> 0x30, 1 \<mapsto> 0x02]\<rparr>) [(1, 0x02), (2, 0x30)]"
    by (simp add: range_of_def)
  from recorded_offsets_in_bounds [of "\<lparr>offsets = Map.empty\<rparr>" "[0x10, 0x20, 0x30]" 2 "0x99" None
      "\<lparr>offsets = [2 \<mapsto> 0x30]\<rparr>" "[0x10, 0x20, 0x99]" 2
      "[([0x10, 0x20, 0x30], 2, 0x99), ([0x01, 0x02], 1, 0x77), ([0x01, 0x02], 2, 0x55)]" 3
      "[0x0a, 0x0b, 0x0c, 0x0d]" "[(1, 0x02), (2, 0x30)]"]
    a b c d e f
  show ?thesis by simp
qed

section \<open>The shuffle yields a permutation\<close>

lemma sint_word_of_nat: "n < 2 ^ 63 \<Longrightarrow> sint (word_of_nat n :: int64) = int n"
proof -
  assume "n < 2 ^ 63"
  then have "int n < int (2 ^ 63)" by (simp only: of_nat_less_iff)
  then have "int n < 2 ^ 63" by (simp only: of_nat_power of_nat_numeral)
  moreover have "- (2 ^ 63) \<le> int n"
  proof -
    have "- (2 ^ 63 :: int) \<le> 0" by (simp only: neg_le_0_iff_le zero_le_power_eq_numeral) simp
    then show ?thesis by linarith
  qed
  ultimately have "signed_take_bit 63 (int n) = int n" by (rule signed_take_bit_int_eq_self [rotated])
  then show ?thesis by (simp add: signed_of_nat)
qed

lemma shuffle_loop_mset:
  "\<forall>n>0. Intn n < n \<Longrightarrow> i < length xs \<Longrightarrow> mset (shuffle_loop Intn i xs) = mset xs"
proof (induction i arbitrary: xs)
  case 0
  then show ?case by simp
next
  case (Suc i)
  let ?j = "Intn (Suc i + 1)"
  from Suc.prems(1) have "?j < Suc i + 1" by simp
  with Suc.prems(2) have j: "?j < length xs" by simp
  let ?ys = "xs[Suc i := xs ! ?j, ?j := xs ! Suc i]"
  have "mset ?ys = mset xs" using j Suc.prems(2) by (rule mset_swap)
  moreover have "mset (shuffle_loop Intn i ?ys) = mset ?ys"
    using Suc.prems by (intro Suc.IH) simp_all
  ultimately show ?case by (simp add: Let_def)
qed

lemma shuffle_mset:
  assumes "\<forall>n>0. Intn n < n"
  shows "mset (shuffle Intn N) = mset [0..<N]"
proof (cases N)
  case 0
  then show ?thesis by (simp add: shuffle_def)
next
  case (Suc m)
  with assms show ?thesis by (simp add: shuffle_def shuffle_loop_mset del: upt_Suc)
qed

text \<open>
  C3: for every \<open>N\<close> (also \<open>N = 0\<close>, where the result is empty), whatever values in
  \<open>[0, i]\<close> the random source returns for \<open>rand.Intn(i + 1)\<close>, the shuffle yields a
  permutation of \<open>[0, N)\<close>: it has the elements of \<open>0, ..., N - 1\<close> with their
  multiplicities, so every integer below \<open>N\<close> occurs exactly once and no other occurs.
\<close>

theorem shuffle_is_permutation:
  assumes "\<forall>n>0. Intn n < n"
  shows "mset (shuffle Intn N) = mset [0..<N]
    \<and> (\<forall>k. count_list (shuffle Intn N) k = (if k < N then 1 else 0))"
proof -
  have m: "mset (shuffle Intn N) = mset [0..<N]" using assms by (rule shuffle_mset)
  have "count_list (shuffle Intn N) k = (if k < N then 1 else 0)" for k
  proof -
    have "count_list (shuffle Intn N) k = count (mset (shuffle Intn N)) k"
      by (simp only: count_mset)
    also have "\<dots> = count (mset [0..<N]) k" by (simp only: m)
    also have "\<dots> = (if k \<in> set [0..<N] then 1 else 0)"
      using distinct_upt [of 0 N] by (simp only: distinct_count_atmost_1)
    also have "\<dots> = (if k < N then 1 else 0)" by simp
    finally show ?thesis .
  qed
  with m show ?thesis by simp
qed

theorem shuffle_is_permutation_witness:
  "shuffle (\<lambda>n. n div 2) 5 = [0, 3, 1, 4, 2]
   \<and> mset (shuffle (\<lambda>n. n div 2) 5) = mset [0..<5]
   \<and> count_list (shuffle (\<lambda>n. n div 2) 5) 4 = 1"
proof -
  have h: "\<forall>n>0. n div 2 < (n :: nat)" by simp
  have e: "shuffle (\<lambda>n. n div 2) 5 = [0, 3, 1, 4, 2]" by code_simp
  from shuffle_is_permutation [OF h, of 5] have "mset (shuffle (\<lambda>n. n div 2) 5) = mset [0..<5]"
    and "count_list (shuffle (\<lambda>n. n div 2) 5) 4 = (if (4::nat) < 5 then 1 else 0)"
    by blast+
  with e show ?thesis by simp
qed

section \<open>The writes of the pixel loop\<close>

lemma RGBA_byte: "ucast (drop_bit 8 (RGBA c)) = c"
  unfolding RGBA_def Let_def
  by (rule bit_word_eqI) (auto simp: bit_simps dest: bit_imp_le_length)

lemma modifyBytes_in_bounds:
  "0 \<le> sint k \<Longrightarrow> sint k < int (length mem) \<Longrightarrow>
   snd (snd (modifyBytes t mem k v)) = mem[nat (sint k) := v]"
  by (simp add: modifyBytes_def Let_def)

lemma modifyBytes_unchecked_restore_loop:
  "\<forall>e\<in>set calls. 0 \<le> sint (fst e) \<and> sint (fst e) < int (length mem) \<Longrightarrow>
   snd (modifyBytes_unchecked t mem calls) = snd (restore_loop calls mem)"
proof (induction calls arbitrary: t mem)
  case Nil
  then show ?case by simp
next
  case (Cons c calls)
  obtain k v where c: "c = (k, v)" by (cases c)
  from Cons.prems c have inb: "0 \<le> sint k" "sint k < int (length mem)" by simp_all
  obtain e t' mem' where m: "modifyBytes t mem k v = (e, t', mem')"
    by (cases "modifyBytes t mem k v")
  with modifyBytes_in_bounds [OF inb, of t v] have mem': "mem' = mem[nat (sint k) := v]" by simp
  from Cons.prems have "\<forall>e\<in>set calls. 0 \<le> sint (fst e) \<and> sint (fst e) < int (length mem')"
    by (simp add: mem')
  then have "snd (modifyBytes_unchecked t' mem' calls) = snd (restore_loop calls mem')"
    by (rule Cons.IH)
  with c m mem' inb show ?case by simp
qed

lemma pixel_writes_eq:
  assumes "i < width * height" and "p < width * height"
  shows "pixel_writes width height srcPix (i, p) =
    zip (map word_of_nat (pixel_offsets p)) (map (nth srcPix) (pixel_offsets i))"
proof -
  from assms(1) have w: "0 < width" by (cases width) simp_all
  then have x: "i mod width < width" by simp
  from assms(1) have y: "i div width < height"
    by (simp add: less_mult_imp_div_less mult.commute)
  have "i div width * (4 * width) + i mod width * 4 = 4 * (i div width * width + i mod width)"
    by (simp only: distrib_left mult_ac)
  also have "\<dots> = 4 * i" by (simp only: div_mult_mod_eq)
  finally have src: "i div width * (4 * width) + i mod width * 4 = 4 * i" .
  have dst: "(p div width * width + p mod width) * 4 = 4 * p" by simp
  show ?thesis
    unfolding pixel_writes_def rgbaAt_def bytesPerPixel_def Let_def pixel_offsets_def
    using x y by (simp only: src dst if_True simp_thms prod.case RGBA_byte) simp
qed

lemma set_pixel_offsets: "set (pixel_offsets p) = {j. j div 4 = p}"
  by (auto simp: pixel_offsets_def)

lemma distinct_pixel_offsets: "distinct (pixel_offsets p)"
  by (simp add: pixel_offsets_def)

lemma length_pixel_offsets: "length (pixel_offsets p) = 4"
  by (simp add: pixel_offsets_def)

lemma set_concat_pixel_offsets: "set (concat (map pixel_offsets ps)) = {j. j div 4 \<in> set ps}"
  by (auto simp: set_pixel_offsets)

lemma distinct_concat_pixel_offsets: "distinct ps \<Longrightarrow> distinct (concat (map pixel_offsets ps))"
proof (induction ps)
  case Nil
  then show ?case by simp
next
  case (Cons p ps)
  have "set (pixel_offsets p) \<inter> set (concat (map pixel_offsets ps)) = {}"
    using Cons.prems by (auto simp: set_pixel_offsets)
  with Cons show ?case by (simp add: distinct_pixel_offsets)
qed

lemma concat_pixel_offsets_upt: "concat (map pixel_offsets [0..<n]) = [0..<4 * n]"
proof (induction n)
  case 0
  then show ?case by simp
next
  case (Suc n)
  have "[0..<Suc (Suc (Suc (Suc (4 * n))))] = [0..<4 * n] @ [4 * n, 4 * n + 1, 4 * n + 2, 4 * n + 3]"
    by simp
  moreover have "4 * Suc n = Suc (Suc (Suc (Suc (4 * n))))" by simp
  ultimately have h: "[0..<4 * n] @ [4 * n, 4 * n + 1, 4 * n + 2, 4 * n + 3] = [0..<4 * Suc n]"
    by (simp only:)
  have "concat (map pixel_offsets [0..<Suc n]) = concat (map pixel_offsets [0..<n]) @ pixel_offsets n"
    by simp
  also have "\<dots> = [0..<4 * n] @ pixel_offsets n" by (simp only: Suc.IH)
  also have "\<dots> = [0..<4 * Suc n]" using h by (simp only: pixel_offsets_def)
  finally show ?case .
qed

lemma shuffle_writes_eq:
  assumes "length P = width * height" and "\<forall>p\<in>set P. p < width * height"
  shows "shuffle_writes width height srcPix P =
    concat (map (\<lambda>(i, p). zip (map word_of_nat (pixel_offsets p)) (map (nth srcPix) (pixel_offsets i)))
      (enumerate 0 P))"
proof -
  have "map (pixel_writes width height srcPix) (enumerate 0 P) =
    map (\<lambda>(i, p). zip (map word_of_nat (pixel_offsets p)) (map (nth srcPix) (pixel_offsets i)))
      (enumerate 0 P)"
  proof (rule map_cong [OF refl])
    fix ip assume ip: "ip \<in> set (enumerate 0 P)"
    obtain i p where "ip = (i, p)" by (cases ip)
    with ip assms show "pixel_writes width height srcPix ip =
      (case ip of (i, p) \<Rightarrow> zip (map word_of_nat (pixel_offsets p)) (map (nth srcPix) (pixel_offsets i)))"
      by (auto simp: in_set_enumerate_eq pixel_writes_eq)
  qed
  then show ?thesis by (simp only: shuffle_writes_def)
qed

lemma sint_pixel_offsets:
  assumes "p < n" and "4 * n < 2 ^ 63"
  shows "map (\<lambda>k. nat (sint (word_of_nat k :: int64))) (pixel_offsets p) = pixel_offsets p"
proof -
  have "nat (sint (word_of_nat k :: int64)) = k" if "k \<in> set (pixel_offsets p)" for k
  proof -
    from that assms(1) have "k < 4 * n" by (auto simp: set_pixel_offsets)
    from this assms(2) have "k < 2 ^ 63" by (rule less_trans)
    then show ?thesis by (simp add: sint_word_of_nat)
  qed
  then show ?thesis by (simp add: map_idI)
qed

lemma shuffle_writes_positions:
  assumes "length P = width * height" and "\<forall>p\<in>set P. p < width * height"
    and "4 * (width * height) < 2 ^ 63"
  shows "map (\<lambda>e. nat (sint (fst e))) (shuffle_writes width height srcPix P)
    = concat (map pixel_offsets P)"
proof -
  have "map (\<lambda>e. nat (sint (fst e))) (shuffle_writes width height srcPix P) =
    concat (map (\<lambda>ip. pixel_offsets (snd ip)) (enumerate 0 P))"
    unfolding shuffle_writes_eq [OF assms(1,2)] map_concat map_map
  proof (rule arg_cong [where f = concat], rule map_cong [OF refl])
    fix ip assume ip: "ip \<in> set (enumerate 0 P)"
    obtain i p where e: "ip = (i, p)" by (cases ip)
    with ip assms(2) have p: "p < width * height" by (auto simp: in_set_enumerate_eq)
    have "map (\<lambda>e. nat (sint (fst e)))
        (zip (map (word_of_nat :: nat \<Rightarrow> int64) (pixel_offsets p)) (map (nth srcPix) (pixel_offsets i)))
      = map (\<lambda>k. nat (sint (word_of_nat k :: int64))) (pixel_offsets p)"
      by (simp add: pixel_offsets_def)
    also have "\<dots> = pixel_offsets p" using p assms(3) by (rule sint_pixel_offsets)
    finally show "(map (\<lambda>e. nat (sint (fst e))) \<circ>
        (\<lambda>(i, p). zip (map (word_of_nat :: nat \<Rightarrow> int64) (pixel_offsets p))
           (map (nth srcPix) (pixel_offsets i)))) ip
      = pixel_offsets (snd ip)"
      by (simp add: e)
  qed
  also have "\<dots> = concat (map pixel_offsets (map snd (enumerate 0 P)))"
    by (simp only: map_map comp_def)
  also have "\<dots> = concat (map pixel_offsets P)" by simp
  finally show ?thesis .
qed

lemma shuffle_writes_values:
  assumes "length P = width * height" and "\<forall>p\<in>set P. p < width * height"
    and "length srcPix = 4 * (width * height)"
  shows "map snd (shuffle_writes width height srcPix P) = srcPix"
proof -
  have "map snd (shuffle_writes width height srcPix P) =
    concat (map (\<lambda>ip. map (nth srcPix) (pixel_offsets (fst ip))) (enumerate 0 P))"
    unfolding shuffle_writes_eq [OF assms(1,2)] map_concat map_map
    by (rule arg_cong [where f = concat], rule map_cong [OF refl])
      (auto simp: pixel_offsets_def)
  also have "\<dots> = concat (map (map (nth srcPix)) (map pixel_offsets (map fst (enumerate 0 P))))"
    by (simp only: map_map comp_def)
  also have "\<dots> = map (nth srcPix) (concat (map pixel_offsets [0..<length P]))"
    by (simp add: map_concat)
  also have "\<dots> = srcPix"
    by (simp only: concat_pixel_offsets_upt assms(1) flip: assms(3)) (rule map_nth)
  finally show ?thesis .
qed

lemma shuffle_writes_in_bounds:
  assumes "length P = width * height" and "\<forall>p\<in>set P. p < width * height"
    and "4 * (width * height) < 2 ^ 63" and "length mem = 4 * (width * height)"
  shows "\<forall>e\<in>set (shuffle_writes width height srcPix P).
    0 \<le> sint (fst e) \<and> sint (fst e) < int (length mem)"
proof
  fix e assume e: "e \<in> set (shuffle_writes width height srcPix P)"
  then obtain i p where ip: "(i, p) \<in> set (enumerate 0 P)"
    and e': "e \<in> set (zip (map word_of_nat (pixel_offsets p)) (map (nth srcPix) (pixel_offsets i)))"
    unfolding shuffle_writes_eq [OF assms(1,2)] by auto
  from ip assms(2) have p: "p < width * height" by (auto simp: in_set_enumerate_eq)
  obtain a b where ab: "e = (a, b)" by (cases e)
  with e' have "a \<in> set (map word_of_nat (pixel_offsets p))" by (metis set_zip_leftD)
  with ab have "fst e \<in> set (map word_of_nat (pixel_offsets p))" by simp
  then obtain k where k: "k \<in> set (pixel_offsets p)" "fst e = word_of_nat k" by auto
  from k(1) p have k4: "k < 4 * (width * height)" by (auto simp: set_pixel_offsets)
  from this assms(3) have "k < 2 ^ 63" by (rule less_trans)
  then have "sint (fst e) = int k" by (simp add: k(2) sint_word_of_nat)
  moreover from k4 assms(4) have "k < length mem" by simp
  then have "int k < int (length mem)" by (simp only: of_nat_less_iff)
  ultimately show "0 \<le> sint (fst e) \<and> sint (fst e) < int (length mem)" by simp
qed

lemma shuffle_writes_distinct:
  assumes "length P = width * height" and "\<forall>p\<in>set P. p < width * height"
    and "4 * (width * height) < 2 ^ 63" and "distinct P"
  shows "distinct (map fst (shuffle_writes width height srcPix P))"
proof -
  have "distinct (map (\<lambda>k. nat (sint k)) (map fst (shuffle_writes width height srcPix P)))"
    using shuffle_writes_positions [OF assms(1,2,3), of srcPix] assms(4)
    by (simp add: comp_def distinct_concat_pixel_offsets)
  then show ?thesis by (rule distinct_map [THEN iffD1, THEN conjunct1])
qed

lemma shuffle_writes_member:
  assumes "length P = width * height" and "\<forall>p\<in>set P. p < width * height"
    and "i < width * height" and "c < 4"
  shows "(word_of_nat (4 * (P ! i) + c), srcPix ! (4 * i + c))
    \<in> set (shuffle_writes width height srcPix P)"
proof -
  from assms(1,3) have "(i, P ! i) \<in> set (enumerate 0 P)" by (simp add: in_set_enumerate_eq)
  moreover from assms(4) have "(word_of_nat (4 * (P ! i) + c), srcPix ! (4 * i + c))
    \<in> set (zip (map word_of_nat (pixel_offsets (P ! i))) (map (nth srcPix) (pixel_offsets i)))"
  proof -
    from assms(4) have "c = 0 \<or> c = 1 \<or> c = 2 \<or> c = 3" by arith
    then show ?thesis by (auto simp: pixel_offsets_def)
  qed
  ultimately show ?thesis
    unfolding shuffle_writes_eq [OF assms(1,2)] by (auto intro!: bexI [of _ "(i, P ! i)"])
qed

lemma modifyBytes_unchecked_length:
  "length (snd (modifyBytes_unchecked t mem calls)) = length mem"
proof (induction calls arbitrary: t mem)
  case Nil
  then show ?case by simp
next
  case (Cons c calls)
  obtain k v where c: "c = (k, v)" by (cases c)
  obtain e t' mem' where m: "modifyBytes t mem k v = (e, t', mem')"
    by (cases "modifyBytes t mem k v")
  then have "length mem' = length mem" by (auto simp: modifyBytes_def Let_def split: if_splits)
  with Cons.IH [of t' mem'] c m show ?case by simp
qed

lemma applyShuffle_nth:
  assumes "length P = width * height" and "\<forall>p\<in>set P. p < width * height"
    and "4 * (width * height) < 2 ^ 63" and "distinct P"
    and "i < width * height" and "c < 4"
  shows "snd (applyShuffle width height srcPix P) ! (4 * (P ! i) + c) = srcPix ! (4 * i + c)"
proof -
  let ?mem = "replicate (width * height * 4) (0 :: byte)"
  let ?W = "shuffle_writes width height srcPix P"
  have len: "length ?mem = 4 * (width * height)" by simp
  have inb: "\<forall>e\<in>set ?W. 0 \<le> sint (fst e) \<and> sint (fst e) < int (length ?mem)"
    using assms(1,2,3) len by (rule shuffle_writes_in_bounds)
  have d: "distinct (map fst ?W)" using assms(1,2,3,4) by (rule shuffle_writes_distinct)
  have m: "(word_of_nat (4 * (P ! i) + c), srcPix ! (4 * i + c)) \<in> set ?W"
    using assms(1,2,5,6) by (rule shuffle_writes_member)
  from assms(1,2,5) have "P ! i < width * height" by simp
  with assms(6) have "4 * (P ! i) + c < 4 * (width * height)" by simp
  from this assms(3) have "4 * (P ! i) + c < 2 ^ 63" by (rule less_trans)
  then have s: "nat (sint (word_of_nat (4 * (P ! i) + c) :: int64)) = 4 * (P ! i) + c"
    by (simp only: sint_word_of_nat nat_int)
  have "snd (applyShuffle width height srcPix P) = snd (restore_loop ?W ?mem)"
    unfolding applyShuffle_def using inb by (rule modifyBytes_unchecked_restore_loop)
  moreover have "snd (restore_loop ?W ?mem) ! nat (sint (word_of_nat (4 * (P ! i) + c) :: int64))
    = srcPix ! (4 * i + c)"
    using d inb m by (rule restore_loop_hit)
  ultimately show ?thesis by (simp only: s)
qed

lemma reverse_loop_enumerate:
  "\<forall>p\<in>set ps. p < length r \<Longrightarrow> distinct ps \<Longrightarrow>
   \<exists>r'. reverse_loop (enumerate k ps) r = Some r' \<and> length r' = length r \<and>
     (\<forall>j<length ps. r' ! (ps ! j) = k + j) \<and> (\<forall>q. q \<notin> set ps \<longrightarrow> r' ! q = r ! q)"
proof (induction ps arbitrary: k r)
  case Nil
  then show ?case by simp
next
  case (Cons p ps)
  let ?r1 = "r[p := k]"
  from Cons.prems have p: "p < length r" "p \<notin> set ps" by simp_all
  from Cons.prems have "\<forall>p\<in>set ps. p < length ?r1" "distinct ps" by simp_all
  from Cons.IH [OF this, of "Suc k"] obtain r' where r':
    "reverse_loop (enumerate (Suc k) ps) ?r1 = Some r'" "length r' = length ?r1"
    "\<forall>j<length ps. r' ! (ps ! j) = Suc k + j" "\<forall>q. q \<notin> set ps \<longrightarrow> r' ! q = ?r1 ! q"
    by blast
  have "reverse_loop (enumerate k (p # ps)) r = Some r'" using p r'(1) by simp
  moreover have "length r' = length r" using r'(2) by simp
  moreover have "\<forall>j<length (p # ps). r' ! ((p # ps) ! j) = k + j"
  proof (intro allI impI)
    fix j assume j: "j < length (p # ps)"
    show "r' ! ((p # ps) ! j) = k + j"
    proof (cases j)
      case 0
      with p r'(4) show ?thesis by simp
    next
      case (Suc j')
      with j r'(3) show ?thesis by simp
    qed
  qed
  moreover have "\<forall>q. q \<notin> set (p # ps) \<longrightarrow> r' ! q = r ! q"
    using r'(4) by auto
  ultimately show ?case by blast
qed

lemma reverseShuffle_inverse:
  assumes "distinct P" and "set P = {0..<length P}"
  shows "\<exists>R. reverseShuffle P = Some R \<and> length R = length P \<and> (\<forall>i<length P. R ! (P ! i) = i)
    \<and> distinct R \<and> set R = {0..<length P}"
proof -
  let ?N = "length P"
  from assms(2) have "\<forall>p\<in>set P. p < length (replicate ?N (0 :: nat))" by simp
  from reverse_loop_enumerate [OF this assms(1), of 0] obtain R where R:
    "reverseShuffle P = Some R" "length R = ?N" "\<forall>i<length P. R ! (P ! i) = i"
    unfolding reverseShuffle_def by auto
  have rp: "R ! q < ?N \<and> P ! (R ! q) = q" if "q < ?N" for q
  proof -
    from that assms(2) have "q \<in> set P" by simp
    then obtain i where "i < ?N" "P ! i = q" by (auto simp: in_set_conv_nth)
    with R(3) show ?thesis by auto
  qed
  have d: "distinct R"
    unfolding distinct_conv_nth
  proof (intro allI impI)
    fix a b assume ab: "a < length R" "b < length R" "a \<noteq> b"
    show "R ! a \<noteq> R ! b"
    proof
      assume "R ! a = R ! b"
      then have "P ! (R ! a) = P ! (R ! b)" by simp
      with rp [of a] rp [of b] ab R(2) show False by simp
    qed
  qed
  have sub: "set R \<subseteq> {0..<?N}"
    using rp R(2) by (auto simp: in_set_conv_nth)
  have "card (set R) = ?N" using d R(2) by (simp add: distinct_card)
  with sub have "set R = {0..<?N}" by (intro card_subset_eq) simp_all
  with R d show ?thesis by blast
qed

section \<open>Applying a permutation and its inverse\<close>

lemma restore_loop_mset:
  assumes inb: "\<forall>e\<in>set W. 0 \<le> sint (fst e) \<and> sint (fst e) < int (length mem)"
    and d: "distinct (map (\<lambda>e. nat (sint (fst e))) W)"
    and s: "set (map (\<lambda>e. nat (sint (fst e))) W) = {0..<length mem}"
  shows "mset (snd (restore_loop W mem)) = mset (map snd W)"
proof -
  let ?r = "snd (restore_loop W mem)"
  let ?fs = "map (\<lambda>e. nat (sint (fst e))) W"
  have len: "length ?r = length mem" by (rule restore_loop_length)
  have "distinct (map (\<lambda>k. nat (sint k)) (map fst W))" using d by (simp add: comp_def)
  then have dk: "distinct (map fst W)" by (rule distinct_map [THEN iffD1, THEN conjunct1])
  have hit: "?r ! nat (sint (fst (W ! j))) = snd (W ! j)" if "j < length W" for j
  proof -
    from that have "(fst (W ! j), snd (W ! j)) \<in> set W" by simp
    with dk inb show ?thesis by (rule restore_loop_hit)
  qed
  have "map (nth ?r) ?fs = map snd W"
    by (rule nth_equalityI) (simp_all add: hit)
  moreover have "set ?fs = set [0..<length mem]" by (simp only: s set_upt)
  then have "mset ?fs = mset [0..<length mem]"
    by (rule set_eq_iff_mset_eq_distinct [OF d distinct_upt, THEN iffD1])
  moreover have "mset ?r = mset (map (nth ?r) [0..<length mem])"
    by (simp only: map_nth flip: len)
  ultimately show ?thesis by (metis mset_map)
qed

lemma perm_facts:
  assumes "mset P = mset [0..<n]"
  shows "length P = n" and "distinct P" and "set P = {0..<n}" and "\<forall>p\<in>set P. p < n"
proof -
  from mset_eq_length [OF assms] show "length P = n" by simp
  from mset_eq_imp_distinct_iff [OF assms] show "distinct P" by simp
  from mset_eq_setD [OF assms] show s: "set P = {0..<n}" by simp
  then show "\<forall>p\<in>set P. p < n" by simp
qed

text \<open>
  The shuffle loop alone: for a source image of \<open>N = width * height\<close> pixels (\<open>4 * N\<close>
  bytes, a length that a Go \<open>int\<close> can hold) and a permutation \<open>P\<close> of \<open>[0, N)\<close>, the image
  it produces has the same multiset of bytes as the source and the same length, and every
  byte position of the output is the target of exactly one of the writes.
\<close>

lemma applyShuffle_rearranges:
  assumes "mset P = mset [0..<width * height]"
    and "length srcPix = 4 * (width * height)"
    and "4 * (width * height) < 2 ^ 63"
  shows "mset (snd (applyShuffle width height srcPix P)) = mset srcPix
    \<and> length (snd (applyShuffle width height srcPix P)) = length srcPix
    \<and> (\<forall>j<length srcPix.
          count_list (map (\<lambda>e. nat (sint (fst e))) (shuffle_writes width height srcPix P)) j = 1)"
proof -
  note P = perm_facts [OF assms(1)]
  let ?mem = "replicate (width * height * 4) (0 :: byte)"
  let ?W = "shuffle_writes width height srcPix P"
  let ?fs = "map (\<lambda>e. nat (sint (fst e))) ?W"
  have len: "length ?mem = 4 * (width * height)" by simp
  have inb: "\<forall>e\<in>set ?W. 0 \<le> sint (fst e) \<and> sint (fst e) < int (length ?mem)"
    using P(1,4) assms(3) len by (rule shuffle_writes_in_bounds)
  have fs: "?fs = concat (map pixel_offsets P)"
    using P(1,4) assms(3) by (rule shuffle_writes_positions)
  have d: "distinct ?fs" using P(2) by (simp only: fs distinct_concat_pixel_offsets)
  have "set ?fs = {j. j div 4 < width * height}"
    by (simp only: fs set_concat_pixel_offsets P(3)) simp
  also have "\<dots> = {0..<4 * (width * height)}" by auto
  finally have s: "set ?fs = {0..<4 * (width * height)}" .
  have "snd (applyShuffle width height srcPix P) = snd (restore_loop ?W ?mem)"
    unfolding applyShuffle_def using inb by (rule modifyBytes_unchecked_restore_loop)
  moreover have "mset (snd (restore_loop ?W ?mem)) = mset (map snd ?W)"
    using inb d s by (intro restore_loop_mset) (simp_all only: len)
  moreover have "map snd ?W = srcPix" using P(1,4) assms(2) by (rule shuffle_writes_values)
  ultimately have m: "mset (snd (applyShuffle width height srcPix P)) = mset srcPix" by simp
  have l: "length (snd (applyShuffle width height srcPix P)) = length srcPix"
    by (simp add: applyShuffle_def modifyBytes_unchecked_length assms(2))
  have "count_list ?fs j = 1" if "j < length srcPix" for j
  proof -
    from that s assms(2) have "j \<in> set ?fs" by simp
    moreover have "count_list ?fs j = count (mset ?fs) j" by (simp only: count_mset)
    ultimately show ?thesis using d by (simp only: distinct_count_atmost_1 if_True)
  qed
  with m l show ?thesis by blast
qed

text \<open>
  The two loops alone: for such an image and permutation the inverse permutation is
  computed without a panic, and applying \<open>P\<close> to the source and then the inverse of \<open>P\<close>
  to the result reproduces the source exactly.
\<close>

lemma applyShuffle_round_trip:
  assumes "mset P = mset [0..<width * height]"
    and "length srcPix = 4 * (width * height)"
    and "4 * (width * height) < 2 ^ 63"
  shows "\<exists>rev. reverseShuffle P = Some rev
    \<and> snd (applyShuffle width height (snd (applyShuffle width height srcPix P)) rev) = srcPix"
proof -
  note P = perm_facts [OF assms(1)]
  let ?N = "width * height"
  let ?scr = "snd (applyShuffle width height srcPix P)"
  from P(2,3) have "set P = {0..<length P}" by (simp add: P(1))
  with P(2) reverseShuffle_inverse [of P] obtain R where R:
    "reverseShuffle P = Some R" "length R = width * height"
    "\<forall>i<width * height. R ! (P ! i) = i" "distinct R" "set R = {0..<width * height}"
    by (auto simp: P(1))
  from R(5) have Rb: "\<forall>p\<in>set R. p < width * height" by simp
  let ?res = "snd (applyShuffle width height ?scr R)"
  have "?res = srcPix"
  proof (rule nth_equalityI)
    show "length ?res = length srcPix"
      by (simp add: applyShuffle_def modifyBytes_unchecked_length assms(2))
  next
    fix j assume "j < length ?res"
    then have j: "j < 4 * ?N" by (simp add: applyShuffle_def modifyBytes_unchecked_length)
    let ?i = "j div 4" and ?c = "j mod 4"
    from j have i: "?i < ?N" by simp
    have c: "?c < 4" by simp
    have jj: "4 * ?i + ?c = j" by simp
    from i P(1,4) have q: "P ! ?i < ?N" by simp
    have "?res ! (4 * (R ! (P ! ?i)) + ?c) = ?scr ! (4 * (P ! ?i) + ?c)"
      using R(2) Rb assms(3) R(4) q c by (rule applyShuffle_nth)
    also have "\<dots> = srcPix ! (4 * ?i + ?c)"
      using P(1,4) assms(3) P(2) i c by (rule applyShuffle_nth)
    finally show "?res ! j = srcPix ! j" using R(3) i by (simp only: jj)
  qed
  with R(1) show ?thesis by blast
qed

section \<open>The loops as \<open>main\<close> runs them\<close>

lemma example_loop_ok:
  "0 < width \<Longrightarrow> \<forall>i\<in>set is. i < length shuffledIndices \<Longrightarrow>
   example_loop width shuffledIndices is = None"
  by (induction "is") auto

lemma example_loop_short:
  "n \<in> set is \<Longrightarrow> length shuffledIndices \<le> n \<Longrightarrow>
   example_loop width shuffledIndices is \<noteq> None"
  by (induction "is") auto

text \<open>
  Every image of fewer than 5 pixels makes \<open>main\<close> panic in the first example loop,
  whatever the pixels and the permutation are.
\<close>

lemma main_scramble_small:
  assumes "length shuffledIndices = width * height" and "width * height < 5"
  shows "\<exists>p. main_scramble width height srcPix shuffledIndices = Inl p"
proof -
  have "4 \<in> set [0..<5]" by simp
  moreover from assms have "length shuffledIndices \<le> 4" by simp
  ultimately have "example_loop width shuffledIndices [0..<5] \<noteq> None"
    by (rule example_loop_short)
  then show ?thesis by (auto simp: main_scramble_def simp del: upt_Suc)
qed

lemma main_restore_small:
  assumes "length shuffledIndices = width * height" and "width * height < 5"
  shows "\<exists>p. main_restore width height srcPix shuffledIndices = Inl p"
  using main_scramble_small [OF assms, of srcPix] by (auto simp: main_restore_def)

text \<open>
  From 5 pixels on both example loops pass, and \<open>main\<close> produces what the loops alone
  produce.
\<close>

lemma main_scramble_rearranges:
  assumes "mset P = mset [0..<width * height]"
    and "length srcPix = 4 * (width * height)"
    and "4 * (width * height) < 2 ^ 63"
    and "5 \<le> width * height"
  shows "main_scramble width height srcPix P = Inr (snd (applyShuffle width height srcPix P))
    \<and> mset (snd (applyShuffle width height srcPix P)) = mset srcPix
    \<and> length (snd (applyShuffle width height srcPix P)) = length srcPix
    \<and> (\<forall>j<length srcPix.
          count_list (map (\<lambda>e. nat (sint (fst e))) (shuffle_writes width height srcPix P)) j = 1)"
proof -
  note P = perm_facts [OF assms(1)]
  from assms(4) have w: "0 < width" by (cases width) simp_all
  from assms(4) P(1) have "\<forall>i\<in>set [0..<5]. i < length P" by simp
  with w have "example_loop width P [0..<5] = None" by (rule example_loop_ok)
  then have "main_scramble width height srcPix P = Inr (snd (applyShuffle width height srcPix P))"
    by (simp add: main_scramble_def del: upt_Suc)
  with applyShuffle_rearranges [OF assms(1,2,3)] show ?thesis by blast
qed

lemma main_restore_round_trip:
  assumes "mset P = mset [0..<width * height]"
    and "length srcPix = 4 * (width * height)"
    and "4 * (width * height) < 2 ^ 63"
    and "5 \<le> width * height"
  shows "main_restore width height srcPix P = Inr (snd (applyShuffle width height srcPix P), srcPix)"
proof -
  note P = perm_facts [OF assms(1)]
  from assms(4) have w: "0 < width" by (cases width) simp_all
  from assms(4) P(1) have "\<forall>i\<in>set [0..<3]. i < length P" by simp
  with w have e: "example_loop width P [0..<3] = None" by (rule example_loop_ok)
  from main_scramble_rearranges [OF assms]
  have s: "main_scramble width height srcPix P = Inr (snd (applyShuffle width height srcPix P))"
    by blast
  from applyShuffle_round_trip [OF assms(1,2,3)] obtain rev where
    "reverseShuffle P = Some rev"
    "snd (applyShuffle width height (snd (applyShuffle width height srcPix P)) rev) = srcPix"
    by blast
  with e s show ?thesis by (simp add: main_restore_def del: upt_Suc)
qed

text \<open>
  C2: the claim says that applying a permutation and then its inverse reproduces the
  buffer, for every buffer and every permutation. That holds of the two loops, and of
  \<open>main\<close> from 5 pixels on. On the image of 2 by 2 pixels (16 bytes) with the permutation
  \<open>[2, 0, 3, 1]\<close>, which meets the conditions of the claim, \<open>main\<close> panics with an index
  out of range at \<open>shuffledIndices[4]\<close> in the first example loop, before either loop
  runs, and restores nothing.
\<close>

theorem main_restore_panics_on_four_pixels:
  "mset [2, 0, 3, 1] = mset [0..<2 * 2]
   \<and> length [1, 2, 3, 4, 5, 6, 7, 8, 9, 10, 11, 12, 13, 14, 15, 16 :: byte] = 4 * (2 * 2)
   \<and> main_restore 2 2 [1, 2, 3, 4, 5, 6, 7, 8, 9, 10, 11, 12, 13, 14, 15, 16] [2, 0, 3, 1]
       = Inl IndexOutOfRange"
proof -
  have u: "[0..<2 * 2] = [0, 1, 2, 3 :: nat]" by code_simp
  have a: "mset [2, 0, 3, 1] = mset [0..<2 * 2]" by (simp only: u) simp
  have "example_loop 2 [2, 0, 3, 1] [0..<5] = Some IndexOutOfRange" by code_simp
  then have "main_restore 2 2 [1, 2, 3, 4, 5, 6, 7, 8, 9, 10, 11, 12, 13, 14, 15, 16] [2, 0, 3, 1]
       = Inl IndexOutOfRange"
    by (simp add: main_restore_def main_scramble_def del: upt_Suc)
  with a show ?thesis by simp
qed

text \<open>
  C5: the claim says that applying a permutation produces, for every image and every
  permutation of its pixels, an output with the same multiset of bytes in which every
  position is written exactly once. That holds of the shuffle loop, and of \<open>main\<close> from 5
  pixels on. On an image of 3 by 1 pixels with the permutation \<open>[1, 2, 0]\<close>, which meets
  the conditions of the claim, \<open>main\<close> panics with an index out of range at
  \<open>shuffledIndices[3]\<close> in the first example loop and produces no output at all.
\<close>

theorem main_scramble_panics_on_three_pixels:
  "mset [1, 2, 0] = mset [0..<3 * 1]
   \<and> length [10, 11, 12, 13, 20, 21, 22, 23, 30, 31, 32, 33 :: byte] = 4 * (3 * 1)
   \<and> main_scramble 3 1 [10, 11, 12, 13, 20, 21, 22, 23, 30, 31, 32, 33] [1, 2, 0]
       = Inl IndexOutOfRange"
proof -
  have u: "[0..<3 * 1] = [0, 1, 2 :: nat]" by code_simp
  have a: "mset [1, 2, 0] = mset [0..<3 * 1]" by (simp only: u) simp
  have "example_loop 3 [1, 2, 0] [0..<5] = Some IndexOutOfRange" by code_simp
  then have "main_scramble 3 1 [10, 11, 12, 13, 20, 21, 22, 23, 30, 31, 32, 33] [1, 2, 0]
       = Inl IndexOutOfRange"
    by (simp add: main_scramble_def del: upt_Suc)
  with a show ?thesis by simp
qed

text \<open>
  An image of 3 by 2 pixels passes both example loops and is restored exactly.
\<close>

lemma main_restore_six_pixels:
  "main_restore 3 2 [1, 2, 3, 4, 5, 6, 7, 8, 9, 10, 11, 12, 13, 14, 15, 16, 17, 18, 19, 20, 21, 22, 23, 24]
      [4, 2, 0, 5, 1, 3]
    = Inr ([9, 10, 11, 12, 17, 18, 19, 20, 5, 6, 7, 8, 21, 22, 23, 24, 1, 2, 3, 4, 13, 14, 15, 16],
           [1, 2, 3, 4, 5, 6, 7, 8, 9, 10, 11, 12, 13, 14, 15, 16, 17, 18, 19, 20, 21, 22, 23, 24])"
  by code_simp

end
